theory Spec2Isabelle
  imports Main "HOL-Library.Word"
begin

section \<open>RenormIsing: block-spin renormalisation of a periodic six-spin Ising ring\<close>

text \<open>
  The development follows \<^verbatim>\<open>src/RenormIsing/Source.cpp\<close>. The C++ \<^verbatim>\<open>int\<close> is
  modelled by \<^typ>\<open>int\<close>: the program only ever adds products of spins in \<open>{+1, -1}\<close>,
  so every intermediate value is bounded by the length of the range (lemma
  \<open>energy_loop_bounded\<close> below) and the 32-bit range is never left by any range a
  \<^verbatim>\<open>std::vector<int>\<close> of fewer than \<open>2^31\<close> elements can hold.
  An iterator range \<^verbatim>\<open>[first, last)\<close> is the list of the values it spans.
\<close>

subsection \<open>Data\<close>

text \<open>\<^verbatim>\<open>class renorm_row\<close> (lines 34-41).\<close>

record renorm_row =
  spin1 :: "int list"
  H1 :: int
  spin2 :: "int list"
  H2 :: int

text \<open>
  Dereferencing an iterator outside its range is undefined behaviour in C++; the model
  makes it an error value.
\<close>

datatype error = OutOfRange

subsection \<open>\<^verbatim>\<open>majority_rule\<close> (lines 44-50)\<close>

text \<open>\<^verbatim>\<open>std::accumulate(first, last, 0)\<close> is a left fold of \<open>+\<close> from \<open>0\<close>.\<close>

definition majority_rule :: "int list \<Rightarrow> int" where
  "majority_rule xs = (let s = foldl (+) 0 xs in if s > 0 then 1 else - 1)"

subsection \<open>\<^verbatim>\<open>energy\<close> (lines 55-65)\<close>

text \<open>
  The loop \<^verbatim>\<open>for (It k = first; k < last - 1; ++k) s += (*k) * (*(k + 1))\<close>, with the
  iterator \<open>k\<close> as its offset from \<open>first\<close>. The comparison is on signed offsets, so
  that \<open>last - 1\<close> lies before \<open>first\<close> for an empty range.
\<close>

function energy_loop :: "int list \<Rightarrow> nat \<Rightarrow> int \<Rightarrow> int" where
  "energy_loop xs k s =
     (if int k < int (length xs) - 1
      then energy_loop xs (Suc k) (s + xs ! k * xs ! (k + 1))
      else s)"
  by pat_completeness auto
termination
  by (relation "measure (\<lambda>(xs, k, s). length xs - k)") auto

declare energy_loop.simps [simp del]

text \<open>
  After the loop, \<^verbatim>\<open>s += (*(last - 1)) * (*first)\<close>. On an empty range \<open>last - 1\<close> is
  not dereferenceable.
\<close>

definition energy :: "int list \<Rightarrow> error + int" where
  "energy xs =
     (let s = energy_loop xs 0 0
      in if xs = [] then Inl OutOfRange
         else Inr (s + xs ! (length xs - 1) * xs ! 0))"

subsection \<open>\<^verbatim>\<open>main\<close>: enumeration (lines 75-96)\<close>

text \<open>
  \<^verbatim>\<open>bitset<6> bits(mask)\<close> keeps the six low bits of \<open>mask\<close>; the inner loop pushes
  \<^verbatim>\<open>bits[5-i] ? 1 : -1\<close> for \<open>i = 0, ..., 5\<close>.
\<close>

definition spin1_of_mask :: "nat \<Rightarrow> int list" where
  "spin1_of_mask m =
     (let bs = (of_nat m :: 6 word)
      in map (\<lambda>i. if bit bs (5 - i) then 1 else - 1) [0..<6])"

text \<open>
  One iteration of the outer loop: the row pushed for \<open>mask = m\<close>. The two calls of
  \<open>majority_rule\<close> take the ranges \<^verbatim>\<open>[begin, begin + 3)\<close> and \<^verbatim>\<open>[begin + 3, end)\<close>.
  The text written to \<^verbatim>\<open>cfg_out.txt\<close> is not modelled.
\<close>

definition make_row :: "nat \<Rightarrow> error + renorm_row" where
  "make_row m =
     (let sp1 = spin1_of_mask m
      in case energy sp1 of
           Inl e \<Rightarrow> Inl e
         | Inr h1 \<Rightarrow>
             (let sp2 = [majority_rule (take 3 sp1)];
                  sp2 = sp2 @ [majority_rule (drop 3 sp1)]
              in case energy sp2 of
                   Inl e \<Rightarrow> Inl e
                 | Inr h2 \<Rightarrow> Inr \<lparr>spin1 = sp1, H1 = h1, spin2 = sp2, H2 = h2\<rparr>))"

text \<open>
  The outer loop \<^verbatim>\<open>for (int mask = 0; mask != (1 << 6); ++mask)\<close> over the masks still
  to visit, appending to the vector \<open>v\<close>.
\<close>

fun enumerate_rows :: "nat list \<Rightarrow> renorm_row list \<Rightarrow> error + renorm_row list" where
  "enumerate_rows [] v = Inr v"
| "enumerate_rows (m # ms) v =
     (case make_row m of
        Inl e \<Rightarrow> Inl e
      | Inr r \<Rightarrow> enumerate_rows ms (v @ [r]))"

subsection \<open>\<^verbatim>\<open>main\<close>: counting (lines 98-114)\<close>

text \<open>
  A \<^verbatim>\<open>std::map<int, int>\<close> is modelled by its list of (key, value) pairs in iteration
  order, which is ascending key order. \<open>map_incr k\<close> is \<^verbatim>\<open>++m[k]\<close>: an absent key
  is inserted with value \<open>0\<close> and then incremented.
\<close>

type_synonym int_map = "(int \<times> int) list"

fun map_incr :: "int \<Rightarrow> int_map \<Rightarrow> int_map" where
  "map_incr k [] = [(k, 0 + 1)]"
| "map_incr k ((k', c) # m) =
     (if k < k' then (k, 0 + 1) # (k', c) # m
      else if k = k' then (k', c + 1) # m
      else (k', c) # map_incr k m)"

fun count_loop :: "renorm_row list \<Rightarrow> int_map \<times> int_map \<Rightarrow> int_map \<times> int_map" where
  "count_loop [] (eq, uneq) = (eq, uneq)"
| "count_loop (r # rs) (eq, uneq) =
     (if spin2 r ! 0 = spin2 r ! 1
      then count_loop rs (map_incr (H1 r) eq, uneq)
      else count_loop rs (eq, map_incr (H1 r) uneq))"

subsection \<open>\<^verbatim>\<open>main\<close>: the equation file (lines 118-142)\<close>

text \<open>\<^verbatim>\<open>ofs << n\<close> for an \<^verbatim>\<open>int\<close>: decimal digits, with a leading minus sign.\<close>

fun show_nat :: "nat \<Rightarrow> string" where
  "show_nat n =
     (if n < 10 then [char_of (48 + n)]
      else show_nat (n div 10) @ [char_of (48 + n mod 10)])"

declare show_nat.simps [simp del]

definition show_int :: "int \<Rightarrow> string" where
  "show_int i = (if i < 0 then CHR ''-'' # show_nat (nat (- i)) else show_nat (nat i))"

text \<open>The body of either output loop, with the flag \<open>first_iter\<close>.\<close>

fun write_terms :: "bool \<Rightarrow> int_map \<Rightarrow> string" where
  "write_terms first_iter [] = []"
| "write_terms first_iter ((k, c) # m) =
     (if first_iter then [] else ''+ '')
     @ show_int c @ '' Exp['' @ show_int k @ '' k]''
     @ write_terms False m"

definition write_equations :: "int_map \<Rightarrow> int_map \<Rightarrow> string" where
  "write_equations eq uneq =
     ''Exp[A(k)+2k'' @ [CHR 0x27] @ ''] = '' @ write_terms True eq @ [CHR 0x0A]
     @ ''Exp[A(k)-2k'' @ [CHR 0x27] @ ''] = '' @ write_terms True uneq @ [CHR 0x0A]"

subsection \<open>\<^verbatim>\<open>main\<close> as a whole\<close>

record main_result =
  v :: "renorm_row list"
  counts_primed_spins_equal :: int_map
  counts_primed_spins_unequal :: int_map
  renorm_out :: string

definition main :: "error + main_result" where
  "main =
     (case enumerate_rows [0..<2 ^ 6] [] of
        Inl e \<Rightarrow> Inl e
      | Inr rows \<Rightarrow>
          (let (eq, uneq) = count_loop rows ([], [])
           in Inr \<lparr>v = rows,
                   counts_primed_spins_equal = eq,
                   counts_primed_spins_unequal = uneq,
                   renorm_out = write_equations eq uneq\<rparr>))"

subsection \<open>Notions used to state the properties\<close>

text \<open>
  The energy of a ring as the specification writes it: the sum over all sites of the
  product of the spin with its cyclic successor, with indices from \<open>0\<close>.
\<close>

definition ring_sum :: "int list \<Rightarrow> int" where
  "ring_sum xs = (\<Sum>i<length xs. xs ! i * xs ! (Suc i mod length xs))"

text \<open>
  The count a table holds for a key (\<open>0\<close> for an absent key), and the sum of all its
  counts.
\<close>

definition lookup :: "int_map \<Rightarrow> int \<Rightarrow> int" where
  "lookup m k = (case map_of m k of None \<Rightarrow> 0 | Some c \<Rightarrow> c)"

definition total_count :: "int_map \<Rightarrow> int" where
  "total_count m = sum_list (map snd m)"

text \<open>The test of the counting loop: the row belongs to the class \<open>s1' = s2'\<close>.\<close>

abbreviation primed_equal :: "renorm_row \<Rightarrow> bool" where
  "primed_equal r \<equiv> spin2 r ! 0 = spin2 r ! 1"

text \<open>
  The inverse of the bit mapping of the enumerator, as the specification words it: spin
  \<open>+1\<close> is bit value \<open>1\<close>, spin \<open>-1\<close> is bit value \<open>0\<close>, site \<open>s1\<close> is bit index \<open>5\<close> and
  site \<open>s6\<close> is bit index \<open>0\<close>.
\<close>

definition encode_spins :: "int list \<Rightarrow> nat" where
  "encode_spins xs = sum_list (map (\<lambda>i. if xs ! i = 1 then 2 ^ (5 - i) else 0) [0..<6])"

text \<open>
  The summary line as the specification words it: one term \<open><count> Exp[<H1> k]\<close> for each
  entry, consecutive terms joined by \<open>+ \<close>.
\<close>

fun term_text :: "int \<times> int \<Rightarrow> string" where
  "term_text (k, c) = show_int c @ '' Exp['' @ show_int k @ '' k]''"

fun join_with :: "string \<Rightarrow> string list \<Rightarrow> string" where
  "join_with sep [] = []"
| "join_with sep [t] = t"
| "join_with sep (t # ts) = t @ sep @ join_with sep ts"

section \<open>The energy functional\<close>

subsection \<open>The loop computes the sum of the adjacent products\<close>

lemma energy_loop_sum:
  "energy_loop xs k s = s + (\<Sum>i = k..<length xs - 1. xs ! i * xs ! Suc i)"
proof (induction xs k s rule: energy_loop.induct)
  case (1 xs k s)
  show ?case
  proof (cases "int k < int (length xs) - 1")
    case True
    then have lt: "k < length xs - 1" by linarith
    have "energy_loop xs k s = energy_loop xs (Suc k) (s + xs ! k * xs ! (k + 1))"
      using True by (subst energy_loop.simps) simp
    also have "\<dots> = s + xs ! k * xs ! (k + 1) + (\<Sum>i = Suc k..<length xs - 1. xs ! i * xs ! Suc i)"
      using "1.IH" [OF True] by simp
    also have "\<dots> = s + (\<Sum>i = k..<length xs - 1. xs ! i * xs ! Suc i)"
      using lt by (simp add: sum.atLeast_Suc_lessThan)
    finally show ?thesis .
  next
    case False
    then have "energy_loop xs k s = s"
      by (subst energy_loop.simps) simp
    moreover from False have "{k..<length xs - 1} = {}" by auto
    ultimately show ?thesis by simp
  qed
qed

lemma energy_ring_sum:
  assumes "xs \<noteq> []"
  shows "energy xs = Inr (ring_sum xs)"
proof -
  obtain n where n: "length xs = Suc n"
    using assms by (cases xs) auto
  have "(\<Sum>i<Suc n. xs ! i * xs ! (Suc i mod Suc n))
      = (\<Sum>i<n. xs ! i * xs ! (Suc i mod Suc n)) + xs ! n * xs ! (Suc n mod Suc n)"
    by simp
  also have "(\<Sum>i<n. xs ! i * xs ! (Suc i mod Suc n)) = (\<Sum>i<n. xs ! i * xs ! Suc i)"
    by (rule sum.cong) auto
  finally have "ring_sum xs = (\<Sum>i = 0..<n. xs ! i * xs ! Suc i) + xs ! n * xs ! 0"
    by (simp add: ring_sum_def n atLeast0LessThan)
  then show ?thesis
    using assms by (simp add: energy_def energy_loop_sum n)
qed

lemma energy_empty: "energy [] = Inl OutOfRange"
  by (simp add: energy_def)

subsection \<open>No intermediate value leaves the range of a machine integer\<close>

lemma spin_product_abs:
  assumes "set xs \<subseteq> {1, - 1}" "Suc i < length xs"
  shows "\<bar>xs ! i * xs ! Suc i\<bar> = (1::int)"
proof -
  have "xs ! i \<in> set xs" "xs ! Suc i \<in> set xs"
    using assms(2) by simp_all
  with assms(1) have "xs ! i \<in> {1, - 1}" "xs ! Suc i \<in> {1, - 1}"
    by blast+
  then show ?thesis by auto
qed

text \<open>
  The accumulator after \<open>j\<close> iterations on \<open>xs\<close> is the loop run to its end on the first
  \<open>j + 1\<close> elements; its absolute value is at most \<open>j\<close>.
\<close>

lemma energy_loop_bounded:
  assumes "set xs \<subseteq> {1, - 1}" "j \<le> length xs - 1"
  shows "\<bar>energy_loop (take (Suc j) xs) 0 0\<bar> \<le> int j"
proof -
  have len: "length (take (Suc j) xs) - 1 = j"
    using assms(2) by (cases xs) auto
  have "energy_loop (take (Suc j) xs) 0 0 = (\<Sum>i = 0..<j. xs ! i * xs ! Suc i)"
    unfolding energy_loop_sum len by simp
  moreover have "\<bar>\<Sum>i = 0..<j. xs ! i * xs ! Suc i\<bar> \<le> (\<Sum>i = 0..<j. \<bar>xs ! i * xs ! Suc i\<bar>)"
    by (rule sum_abs)
  moreover have "(\<Sum>i = 0..<j. \<bar>xs ! i * xs ! Suc i\<bar>) = (\<Sum>i = 0..<j. 1)"
    using assms by (intro sum.cong refl spin_product_abs) auto
  ultimately show ?thesis by simp
qed

subsection \<open>Rotating and reversing a ring\<close>

lemma succ_pred_mod: "i < n \<Longrightarrow> (Suc i mod n + n - Suc 0) mod n = i"
  by (cases "Suc i = n") (auto simp: mod_Suc)

lemma pred_succ_mod: "j < n \<Longrightarrow> Suc ((j + n - Suc 0) mod n) mod n = j"
  by (cases j) (auto simp: mod_Suc)

lemma mirror_succ: "i < n \<Longrightarrow> Suc (n - Suc (Suc i mod n)) mod n = n - Suc i"
  by (cases "Suc i = n") (auto simp: mod_Suc Suc_diff_Suc)

lemma mirror_invol: "i < n \<Longrightarrow> n - Suc (Suc (n - Suc (Suc i mod n)) mod n) = i"
  by (simp add: mirror_succ)

lemma ring_sum_rotate1: "ring_sum (rotate1 xs) = ring_sum xs"
proof (cases "xs = []")
  case True
  then show ?thesis by simp
next
  case False
  define n where "n = length xs"
  have n: "0 < n" using False by (simp add: n_def)
  have "ring_sum (rotate1 xs) = (\<Sum>i<n. xs ! (Suc i mod n) * xs ! (Suc (Suc i mod n) mod n))"
    unfolding ring_sum_def using n by (simp add: nth_rotate1 n_def)
  also have "\<dots> = (\<Sum>j<n. xs ! j * xs ! (Suc j mod n))"
    using n
    by (intro sum.reindex_bij_witness [where i = "\<lambda>j. (j + n - 1) mod n" and j = "\<lambda>i. Suc i mod n"])
      (simp_all add: succ_pred_mod pred_succ_mod)
  finally show ?thesis by (simp add: ring_sum_def n_def)
qed

lemma ring_sum_rotate: "ring_sum (rotate m xs) = ring_sum xs"
  by (induction m) (simp_all add: ring_sum_rotate1)

lemma ring_sum_rev: "ring_sum (rev xs) = ring_sum xs"
proof (cases "xs = []")
  case True
  then show ?thesis by simp
next
  case False
  define n where "n = length xs"
  have n: "0 < n" using False by (simp add: n_def)
  have "ring_sum (rev xs) = (\<Sum>i<n. xs ! (n - Suc i) * xs ! (n - Suc (Suc i mod n)))"
    unfolding ring_sum_def using n by (simp add: rev_nth n_def)
  also have "\<dots> = (\<Sum>j<n. xs ! j * xs ! (Suc j mod n))"
    using n
    by (intro sum.reindex_bij_witness [where i = "\<lambda>j. n - Suc (Suc j mod n)" and j = "\<lambda>i. n - Suc (Suc i mod n)"])
      (simp_all add: mirror_succ mirror_invol mult.commute)
  finally show ?thesis by (simp add: ring_sum_def n_def)
qed

subsection \<open>Properties of \<open>energy\<close>\<close>

text \<open>
  C1. For every ring of \<open>n \<ge> 2\<close> spins in \<open>{+1, -1}\<close>, \<open>energy\<close> returns the sum over
  all sites of the product of the spin with its cyclic successor, the pair of the last
  and the first site included.
\<close>

theorem energy_is_cyclic_sum:
  assumes "2 \<le> length xs" and "set xs \<subseteq> {1, - 1}"
  shows "energy xs = Inr (\<Sum>i<length xs. xs ! i * xs ! (Suc i mod length xs))"
proof -
  from assms(1) have "xs \<noteq> []" by auto
  then show ?thesis
    by (simp add: energy_ring_sum ring_sum_def)
qed

theorem energy_is_cyclic_sum_witness:
  "2 \<le> length [1, - 1, 1, 1, - 1, 1 :: int] \<and> set [1, - 1, 1, 1, - 1, 1 :: int] \<subseteq> {1, - 1}
   \<and> energy [1, - 1, 1, 1, - 1, 1] = Inr (- 2)"
proof -
  let ?xs = "[1, - 1, 1, 1, - 1, 1 :: int]"
  have len: "2 \<le> length ?xs" and spins: "set ?xs \<subseteq> {1, - 1}"
    by simp_all
  have "(\<Sum>i<length ?xs. ?xs ! i * ?xs ! (Suc i mod length ?xs)) = - 2"
    by code_simp
  with energy_is_cyclic_sum [OF len spins] len spins show ?thesis
    by simp
qed

text \<open>
  C7. For every ring of \<open>n \<ge> 2\<close> spins in \<open>{+1, -1}\<close>, the energy of the reversed ring
  and the energy of the ring rotated by any number \<open>m\<close> of places are the energy of the
  ring.
\<close>

theorem energy_rev_rotate:
  assumes "2 \<le> length xs" and "set xs \<subseteq> {1, - 1}"
  shows "energy (rev xs) = energy xs \<and> energy (rotate m xs) = energy xs"
proof -
  from assms(1) have "xs \<noteq> []" by auto
  then show ?thesis
    by (simp add: energy_ring_sum ring_sum_rev ring_sum_rotate)
qed

theorem energy_rev_rotate_witness:
  "2 \<le> length [1, 1, - 1, 1 :: int] \<and> set [1, 1, - 1, 1 :: int] \<subseteq> {1, - 1}
   \<and> energy [1, - 1, 1, 1] = energy [1, 1, - 1, 1]
   \<and> energy [- 1, 1, 1, 1] = energy [1, 1, - 1, 1]"
  using energy_rev_rotate [of "[1, 1, - 1, 1]" 2]
  by (simp add: eval_nat_numeral)

text \<open>
  C9. On a range of one element the loop body is never run (the loop returns its
  accumulator \<open>0\<close>), only the wrap-around product is added, and \<open>energy\<close> returns the
  square of the element: \<open>1\<close> for either spin.
\<close>

theorem energy_single:
  "energy_loop [x] 0 0 = 0 \<and> energy [x] = Inr (x * x)
   \<and> energy [1] = Inr 1 \<and> energy [- 1] = Inr 1"
  by (simp add: energy_def energy_loop.simps)

section \<open>The majority rule\<close>

lemma foldl_plus_sum_list: "foldl (+) a xs = a + sum_list (xs :: int list)"
  by (induction xs arbitrary: a) simp_all

lemma majority_rule_sum_list: "majority_rule xs = (if 0 < sum_list xs then 1 else - 1)"
  by (simp add: majority_rule_def foldl_plus_sum_list)

text \<open>
  C2. On three values in \<open>{+1, -1}\<close>, \<open>majority_rule\<close> is \<open>+1\<close> if their sum is strictly
  positive and \<open>-1\<close> otherwise, so the result is one of \<open>+1\<close> and \<open>-1\<close>; the test is the
  strict one on every range (a range of sum \<open>0\<close> gives \<open>-1\<close>); and the four values the
  specification lists.
\<close>

theorem majority_rule_three:
  assumes "a \<in> {1, - 1}" and "b \<in> {1, - 1}" and "c \<in> {1, - 1}"
  shows "majority_rule [a, b, c] = (if 0 < a + b + c then 1 else - 1)
    \<and> majority_rule [a, b, c] \<in> {1, - 1}
    \<and> (\<forall>ys. sum_list ys = 0 \<longrightarrow> majority_rule ys = - 1)
    \<and> majority_rule [1, 1, 1] = 1 \<and> majority_rule [- 1, - 1, - 1] = - 1
    \<and> majority_rule [1, 1, - 1] = 1 \<and> majority_rule [- 1, - 1, 1] = - 1"
  by (simp add: majority_rule_sum_list)

theorem majority_rule_three_witness:
  "(1::int) \<in> {1, - 1} \<and> (- 1 :: int) \<in> {1, - 1}
   \<and> majority_rule [1, - 1, 1] = 1 \<and> majority_rule [- 1, 1, - 1] = - 1
   \<and> majority_rule [1, - 1] = - 1"
proof -
  have "sum_list [1, - 1 :: int] = 0" by simp
  with majority_rule_three [of 1 "- 1" 1] majority_rule_three [of "- 1" 1 "- 1"]
  show ?thesis by simp
qed

text \<open>
  C10. On the empty range \<open>majority_rule\<close> does not fail: the accumulated sum is \<open>0\<close>,
  the test \<open>s > 0\<close> fails, and the result is \<open>-1\<close>.
\<close>

theorem majority_rule_empty: "foldl (+) (0::int) [] = 0 \<and> majority_rule [] = - 1"
  by (simp add: majority_rule_def)

section \<open>The enumeration\<close>

lemma length_spin1_of_mask: "length (spin1_of_mask m) = 6"
  by (simp add: spin1_of_mask_def)

lemma nth_spin1_of_mask:
  "i < 6 \<Longrightarrow> spin1_of_mask m ! i = (if bit m (5 - i) then 1 else - 1)"
proof -
  assume i: "i < 6"
  have "5 - i < 6" by simp
  then have "bit (of_nat m :: 6 word) (5 - i) = bit m (5 - i)"
    by (simp add: bit_of_nat_iff)
  with i show ?thesis
    by (simp add: spin1_of_mask_def del: upt_Suc)
qed

lemma set_spin1_of_mask: "set (spin1_of_mask m) \<subseteq> {1, - 1}"
  by (auto simp: spin1_of_mask_def)

lemma majority_rule_cases: "majority_rule xs = 1 \<or> majority_rule xs = - 1"
  by (simp add: majority_rule_def Let_def)

lemma ring_sum_pair: "ring_sum [a, b] = 2 * a * b"
  by (simp add: ring_sum_def lessThan_Suc eval_nat_numeral)

lemma energy_pair: "energy [a, b] = Inr (2 * a * b)"
  by (simp add: energy_ring_sum ring_sum_pair)

lemma make_row_Inr:
  "make_row m = Inr
     \<lparr>spin1 = spin1_of_mask m,
      H1 = ring_sum (spin1_of_mask m),
      spin2 = [majority_rule (take 3 (spin1_of_mask m)), majority_rule (drop 3 (spin1_of_mask m))],
      H2 = 2 * majority_rule (take 3 (spin1_of_mask m)) * majority_rule (drop 3 (spin1_of_mask m))\<rparr>"
proof -
  have "spin1_of_mask m \<noteq> []"
    using length_spin1_of_mask [of m] by auto
  then show ?thesis
    by (simp add: make_row_def energy_ring_sum ring_sum_pair Let_def)
qed

lemma enumerate_rows_map:
  "enumerate_rows ms v0 = Inr (v0 @ map (\<lambda>m. projr (make_row m)) ms)"
  by (induction ms arbitrary: v0) (simp_all add: make_row_Inr)

lemma main_unfold:
  "\<exists>res. main = Inr res
     \<and> v res = map (\<lambda>m. projr (make_row m)) [0..<64]
     \<and> count_loop (v res) ([], []) = (counts_primed_spins_equal res, counts_primed_spins_unequal res)
     \<and> renorm_out res = write_equations (counts_primed_spins_equal res) (counts_primed_spins_unequal res)"
  by (simp add: main_def enumerate_rows_map split: prod.split)

lemma spin1_make_row: "spin1 (projr (make_row m)) = spin1_of_mask m"
  by (simp add: make_row_Inr)

lemma main_rows:
  assumes "main = Inr res"
  shows "v res = map (\<lambda>m. projr (make_row m)) [0..<64]"
    and "count_loop (v res) ([], []) = (counts_primed_spins_equal res, counts_primed_spins_unequal res)"
    and "renorm_out res = write_equations (counts_primed_spins_equal res) (counts_primed_spins_unequal res)"
proof -
  from main_unfold obtain res' where res': "main = Inr res'"
    and rows: "v res' = map (\<lambda>m. projr (make_row m)) [0..<64]"
    and tabs: "count_loop (v res') ([], []) = (counts_primed_spins_equal res', counts_primed_spins_unequal res')"
    and out: "renorm_out res' = write_equations (counts_primed_spins_equal res') (counts_primed_spins_unequal res')"
    by blast
  from res' [symmetric] assms have "Inr res' = (Inr res :: error + main_result)"
    by (rule trans)
  then have eq: "res' = res" by (rule Inr_inject)
  show "v res = map (\<lambda>m. projr (make_row m)) [0..<64]"
    using rows unfolding eq .
  show "count_loop (v res) ([], []) = (counts_primed_spins_equal res, counts_primed_spins_unequal res)"
    using tabs unfolding eq .
  show "renorm_out res = write_equations (counts_primed_spins_equal res) (counts_primed_spins_unequal res)"
    using out unfolding eq .
qed

lemma main_row_cases:
  assumes "main = Inr res" and "r \<in> set (v res)"
  obtains m where "m < 64" and "make_row m = Inr r"
proof -
  from assms obtain m where "m < 64" and "r = projr (make_row m)"
    by (auto simp: main_rows(1))
  then have "make_row m = Inr r"
    by (simp add: make_row_Inr)
  with \<open>m < 64\<close> show ?thesis by (rule that)
qed

lemma main_nth:
  assumes "main = Inr res" and "m < 64"
  shows "length (v res) = 64" and "v res ! m \<in> set (v res)" and "v res ! m = projr (make_row m)"
proof -
  show len: "length (v res) = 64"
    using assms(1) by (simp add: main_rows(1))
  with assms(2) show "v res ! m \<in> set (v res)" by simp
  show "v res ! m = projr (make_row m)"
    using assms(2) unfolding main_rows(1) [OF assms(1)] by (simp del: upt_Suc)
qed

lemma encode_decode_all:
  "list_all (\<lambda>k. encode_spins (spin1_of_mask k) = k) [0..<64]"
  by code_simp

lemma encode_decode: "k < 64 \<Longrightarrow> encode_spins (spin1_of_mask k) = k"
  using encode_decode_all unfolding list_all_iff by simp

lemma all_configurations:
  "set (map spin1_of_mask [0..<64]) = set (List.n_lists 6 [1, - 1])"
  by code_simp

lemma spin1_of_mask_bij:
  "bij_betw spin1_of_mask {0..63} {xs. length xs = 6 \<and> set xs \<subseteq> {1, - 1}}"
proof -
  have inj: "inj_on spin1_of_mask {0..63}"
    by (rule inj_on_inverseI [where g = encode_spins]) (simp add: encode_decode)
  have "{0..63::nat} = set [0..<64]"
    by auto
  then have "spin1_of_mask ` {0..63} = set (map spin1_of_mask [0..<64])"
    by simp
  also have "\<dots> = {xs. length xs = 6 \<and> set xs \<subseteq> {1, - 1}}"
    unfolding all_configurations set_n_lists by simp
  finally show ?thesis
    using inj by (simp add: bij_betw_def)
qed

text \<open>
  C4. For every \<open>k\<close> in \<open>[0, 63]\<close> the enumerator yields six spins, site \<open>i + 1\<close> being \<open>+1\<close>
  if bit \<open>5 - i\<close> of \<open>k\<close> is set and \<open>-1\<close> if not; encoding the spins again gives \<open>k\<close>; the
  decoding is a bijection between \<open>[0, 63]\<close> and the lists of six spins; and the rows of
  \<open>main\<close> hold these 64 configurations in the order of \<open>k\<close>, each once.
\<close>

theorem enumerator_bijection:
  "(\<forall>k<64. length (spin1_of_mask k) = 6
       \<and> (\<forall>i<6. spin1_of_mask k ! i = (if bit k (5 - i) then 1 else - 1))
       \<and> encode_spins (spin1_of_mask k) = k)
   \<and> bij_betw spin1_of_mask {0..63} {xs. length xs = 6 \<and> set xs \<subseteq> {1, - 1}}
   \<and> (\<exists>res. main = Inr res
        \<and> map spin1 (v res) = map spin1_of_mask [0..<64]
        \<and> distinct (map spin1 (v res)))"
proof -
  have dec: "\<forall>k<64. length (spin1_of_mask k) = 6
       \<and> (\<forall>i<6. spin1_of_mask k ! i = (if bit k (5 - i) then 1 else - 1))
       \<and> encode_spins (spin1_of_mask k) = k"
    by (simp add: length_spin1_of_mask nth_spin1_of_mask encode_decode)
  obtain res where res: "main = Inr res"
    using main_unfold by blast
  have rows: "map spin1 (v res) = map spin1_of_mask [0..<64]"
    unfolding main_rows(1) [OF res] by (simp add: spin1_make_row del: upt_Suc)
  have "inj_on spin1_of_mask (set [0..<64])"
    by (rule inj_on_inverseI [where g = encode_spins]) (simp add: encode_decode)
  then have "distinct (map spin1_of_mask [0..<64])"
    by (simp add: distinct_map del: upt_Suc)
  with rows have "distinct (map spin1 (v res))" by simp
  with res rows have "\<exists>res. main = Inr res
        \<and> map spin1 (v res) = map spin1_of_mask [0..<64]
        \<and> distinct (map spin1 (v res))"
    by blast
  with dec spin1_of_mask_bij show ?thesis by blast
qed

theorem enumerator_bijection_witness:
  "(37::nat) < 64 \<and> (1::nat) < 6
   \<and> spin1_of_mask 37 = [1, - 1, - 1, 1, - 1, 1]
   \<and> spin1_of_mask 37 ! 1 = - 1
   \<and> encode_spins [1, - 1, - 1, 1, - 1, 1] = 37"
proof -
  have v: "spin1_of_mask 37 = [1, - 1, - 1, 1, - 1, 1]"
    by code_simp
  have b: "\<not> bit (37::nat) (5 - 1)"
    by code_simp
  from enumerator_bijection have "length (spin1_of_mask 37) = 6
       \<and> (\<forall>i<6. spin1_of_mask 37 ! i = (if bit (37::nat) (5 - i) then 1 else - 1))
       \<and> encode_spins (spin1_of_mask 37) = 37"
    by simp
  then have "spin1_of_mask 37 ! 1 = (if bit (37::nat) (5 - 1) then 1 else - 1)"
    and "encode_spins (spin1_of_mask 37) = 37"
    by simp_all
  with v b show ?thesis by simp
qed

section \<open>The counting loop\<close>

lemma total_map_incr: "total_count (map_incr k m) = total_count m + 1"
  by (induction m) (auto simp: total_count_def)

lemma keys_map_incr: "fst ` set (map_incr k m) = insert k (fst ` set m)"
  by (induction k m rule: map_incr.induct) (simp_all add: insert_commute)

lemma sorted_map_incr:
  "sorted_wrt (<) (map fst m) \<Longrightarrow> sorted_wrt (<) (map fst (map_incr k m))"
proof (induction m)
  case Nil
  then show ?case by simp
next
  case (Cons p m)
  obtain k' c where p: "p = (k', c)" by (cases p)
  from Cons.prems have tl: "sorted_wrt (<) (map fst m)" and hd: "\<forall>x\<in>fst ` set m. k' < x"
    by (auto simp: p)
  show ?case
  proof (cases "k < k'")
    case True
    with Cons.prems show ?thesis by (auto simp: p)
  next
    case False
    show ?thesis
    proof (cases "k = k'")
      case True
      with Cons.prems show ?thesis by (simp add: p)
    next
      case ne: False
      with False have "k' < k" by simp
      with hd have "\<forall>x\<in>fst ` set (map_incr k m). k' < x"
        by (simp add: keys_map_incr)
      with Cons.IH [OF tl] False ne show ?thesis
        by (simp add: p)
    qed
  qed
qed

lemma lookup_map_incr:
  "sorted_wrt (<) (map fst m) \<Longrightarrow>
   lookup (map_incr k m) h = (if h = k then lookup m k + 1 else lookup m h)"
proof (induction m)
  case Nil
  then show ?case by (simp add: lookup_def)
next
  case (Cons p m)
  obtain k' c where p: "p = (k', c)" by (cases p)
  from Cons.prems have tl: "sorted_wrt (<) (map fst m)" and hd: "\<forall>x\<in>fst ` set m. k' < x"
    by (auto simp: p)
  have absent: "map_of m k = None" if "k < k'"
  proof -
    from that hd have "k \<notin> fst ` set m" by force
    then show ?thesis by (simp add: map_of_eq_None_iff)
  qed
  show ?case
    using Cons.IH [OF tl] absent
    by (auto simp: p lookup_def)
qed

lemma count_loop_total:
  "count_loop rows (e, u) = (e', u') \<Longrightarrow>
   total_count e' = total_count e + int (length (filter primed_equal rows))
   \<and> total_count u' = total_count u + int (length (filter (\<lambda>r. \<not> primed_equal r) rows))"
  by (induction rows arbitrary: e u) (auto simp: total_map_incr split: if_splits)

lemma count_loop_sorted:
  "count_loop rows (e, u) = (e', u') \<Longrightarrow>
   sorted_wrt (<) (map fst e) \<Longrightarrow> sorted_wrt (<) (map fst u) \<Longrightarrow>
   sorted_wrt (<) (map fst e') \<and> sorted_wrt (<) (map fst u')"
  by (induction rows arbitrary: e u) (auto simp: sorted_map_incr split: if_splits)

lemma count_loop_keys:
  "count_loop rows (e, u) = (e', u') \<Longrightarrow>
   fst ` set e' = fst ` set e \<union> H1 ` {r \<in> set rows. primed_equal r}
   \<and> fst ` set u' = fst ` set u \<union> H1 ` {r \<in> set rows. \<not> primed_equal r}"
proof (induction rows arbitrary: e u)
  case Nil
  then show ?case by simp
next
  case (Cons r rows)
  show ?case
  proof (cases "primed_equal r")
    case True
    with Cons.prems have "count_loop rows (map_incr (H1 r) e, u) = (e', u')" by simp
    from Cons.IH [OF this] True show ?thesis
      by (auto simp: keys_map_incr)
  next
    case False
    with Cons.prems have "count_loop rows (e, map_incr (H1 r) u) = (e', u')" by simp
    from Cons.IH [OF this] False show ?thesis
      by (auto simp: keys_map_incr)
  qed
qed

lemma count_loop_lookup:
  "count_loop rows (e, u) = (e', u') \<Longrightarrow>
   sorted_wrt (<) (map fst e) \<Longrightarrow> sorted_wrt (<) (map fst u) \<Longrightarrow>
   lookup e' h = lookup e h + int (length (filter (\<lambda>r. primed_equal r \<and> H1 r = h) rows))
   \<and> lookup u' h = lookup u h + int (length (filter (\<lambda>r. \<not> primed_equal r \<and> H1 r = h) rows))"
proof (induction rows arbitrary: e u)
  case Nil
  then show ?case by simp
next
  case (Cons r rows)
  show ?case
  proof (cases "primed_equal r")
    case True
    with Cons.prems have "count_loop rows (map_incr (H1 r) e, u) = (e', u')" by simp
    from Cons.IH [OF this sorted_map_incr [OF Cons.prems(2)] Cons.prems(3)] True show ?thesis
      by (simp add: lookup_map_incr [OF Cons.prems(2)])
  next
    case False
    with Cons.prems have "count_loop rows (e, map_incr (H1 r) u) = (e', u')" by simp
    from Cons.IH [OF this Cons.prems(2) sorted_map_incr [OF Cons.prems(3)]] False show ?thesis
      by (simp add: lookup_map_incr [OF Cons.prems(3)])
  qed
qed

lemma count_step:
  assumes "count_loop [r] (e, u) = (e', u')"
  shows "(primed_equal r \<and> e' = map_incr (H1 r) e \<and> u' = u \<and> total_count e' = total_count e + 1 \<and> total_count u' = total_count u)
       \<or> (spin2 r ! 0 \<noteq> spin2 r ! 1 \<and> e' = e \<and> u' = map_incr (H1 r) u \<and> total_count e' = total_count e \<and> total_count u' = total_count u + 1)"
  using assms by (auto simp: total_map_incr split: if_splits)

lemma main_tables:
  assumes "main = Inr res"
  shows "lookup (counts_primed_spins_equal res) h
           = int (length (filter (\<lambda>r. primed_equal r \<and> H1 r = h) (v res)))"
    and "lookup (counts_primed_spins_unequal res) h
           = int (length (filter (\<lambda>r. \<not> primed_equal r \<and> H1 r = h) (v res)))"
    and "total_count (counts_primed_spins_equal res) = int (length (filter primed_equal (v res)))"
    and "total_count (counts_primed_spins_unequal res) = int (length (filter (\<lambda>r. \<not> primed_equal r) (v res)))"
    and "sorted_wrt (<) (map fst (counts_primed_spins_equal res))"
    and "sorted_wrt (<) (map fst (counts_primed_spins_unequal res))"
    and "fst ` set (counts_primed_spins_equal res) = H1 ` {r \<in> set (v res). primed_equal r}"
    and "fst ` set (counts_primed_spins_unequal res) = H1 ` {r \<in> set (v res). \<not> primed_equal r}"
proof -
  note cl = main_rows(2) [OF assms]
  have nil: "sorted_wrt (<) (map fst ([] :: int_map))" by simp
  from count_loop_lookup [OF cl nil nil, of h]
  show "lookup (counts_primed_spins_equal res) h
           = int (length (filter (\<lambda>r. primed_equal r \<and> H1 r = h) (v res)))"
    and "lookup (counts_primed_spins_unequal res) h
           = int (length (filter (\<lambda>r. \<not> primed_equal r \<and> H1 r = h) (v res)))"
    by (simp_all add: lookup_def)
  from count_loop_total [OF cl]
  show "total_count (counts_primed_spins_equal res) = int (length (filter primed_equal (v res)))"
    and "total_count (counts_primed_spins_unequal res) = int (length (filter (\<lambda>r. \<not> primed_equal r) (v res)))"
    by (simp_all add: total_count_def)
  from count_loop_sorted [OF cl nil nil]
  show "sorted_wrt (<) (map fst (counts_primed_spins_equal res))"
    and "sorted_wrt (<) (map fst (counts_primed_spins_unequal res))"
    by simp_all
  from count_loop_keys [OF cl]
  show "fst ` set (counts_primed_spins_equal res) = H1 ` {r \<in> set (v res). primed_equal r}"
    and "fst ` set (counts_primed_spins_unequal res) = H1 ` {r \<in> set (v res). \<not> primed_equal r}"
    by simp_all
qed

section \<open>The coarse-grained energy\<close>

text \<open>
  C3. \<open>H2\<close> is the generic \<open>energy\<close> applied to the two block spins; on a ring of two
  sites \<open>energy\<close> returns twice the product. For every mask \<open>k < 64\<close> the row of \<open>main\<close>
  at index \<open>k\<close> is the row made for \<open>k\<close>: its spins are those of the mask, its block
  spins are the majority rule of the first three and of the last three of them, and
  \<open>H2 = 2 \<cdot> s1' \<cdot> s2'\<close>, which is \<open>+2\<close> or \<open>-2\<close> and never \<open>0\<close>; the same holds of every row.
\<close>

theorem H2_twice_product:
  "(\<forall>a b. energy [a, b] = Inr (2 * a * b))
   \<and> (\<exists>res. main = Inr res
        \<and> length (v res) = 64
        \<and> (\<forall>k<64.
              make_row k = Inr (v res ! k)
              \<and> spin1 (v res ! k) = spin1_of_mask k
              \<and> spin2 (v res ! k) =
                  [majority_rule (take 3 (spin1 (v res ! k))),
                   majority_rule (drop 3 (spin1 (v res ! k)))]
              \<and> energy (spin2 (v res ! k)) = Inr (H2 (v res ! k))
              \<and> H2 (v res ! k) =
                  2 * majority_rule (take 3 (spin1_of_mask k))
                    * majority_rule (drop 3 (spin1_of_mask k))
              \<and> H2 (v res ! k) = 2 * spin2 (v res ! k) ! 0 * spin2 (v res ! k) ! 1
              \<and> (H2 (v res ! k) = 2 \<or> H2 (v res ! k) = - 2)
              \<and> H2 (v res ! k) \<noteq> 0)
        \<and> (\<forall>r\<in>set (v res).
              length (spin2 r) = 2
              \<and> energy (spin2 r) = Inr (H2 r)
              \<and> H2 r = 2 * spin2 r ! 0 * spin2 r ! 1
              \<and> (H2 r = 2 \<or> H2 r = - 2)
              \<and> H2 r \<noteq> 0))"
proof -
  obtain res where res: "main = Inr res"
    using main_unfold by blast
  have row: "spin1 r = spin1_of_mask m
      \<and> spin2 r = [majority_rule (take 3 (spin1 r)), majority_rule (drop 3 (spin1 r))]
      \<and> energy (spin2 r) = Inr (H2 r)
      \<and> H2 r = 2 * majority_rule (take 3 (spin1_of_mask m)) * majority_rule (drop 3 (spin1_of_mask m))
      \<and> H2 r = 2 * spin2 r ! 0 * spin2 r ! 1
      \<and> (H2 r = 2 \<or> H2 r = - 2) \<and> H2 r \<noteq> 0 \<and> length (spin2 r) = 2"
    if "make_row m = Inr r" for m r
  proof -
    from that have r: "r = \<lparr>spin1 = spin1_of_mask m,
        H1 = ring_sum (spin1_of_mask m),
        spin2 = [majority_rule (take 3 (spin1_of_mask m)), majority_rule (drop 3 (spin1_of_mask m))],
        H2 = 2 * majority_rule (take 3 (spin1_of_mask m)) * majority_rule (drop 3 (spin1_of_mask m))\<rparr>"
      by (simp add: make_row_Inr)
    show ?thesis
      using majority_rule_cases [of "take 3 (spin1_of_mask m)"]
        majority_rule_cases [of "drop 3 (spin1_of_mask m)"]
      by (auto simp: r energy_pair)
  qed
  have len: "length (v res) = 64"
    by (rule main_nth(1) [OF res, of 0]) simp
  have masks: "\<forall>k<64.
              make_row k = Inr (v res ! k)
              \<and> spin1 (v res ! k) = spin1_of_mask k
              \<and> spin2 (v res ! k) =
                  [majority_rule (take 3 (spin1 (v res ! k))),
                   majority_rule (drop 3 (spin1 (v res ! k)))]
              \<and> energy (spin2 (v res ! k)) = Inr (H2 (v res ! k))
              \<and> H2 (v res ! k) =
                  2 * majority_rule (take 3 (spin1_of_mask k))
                    * majority_rule (drop 3 (spin1_of_mask k))
              \<and> H2 (v res ! k) = 2 * spin2 (v res ! k) ! 0 * spin2 (v res ! k) ! 1
              \<and> (H2 (v res ! k) = 2 \<or> H2 (v res ! k) = - 2)
              \<and> H2 (v res ! k) \<noteq> 0"
  proof (intro allI impI)
    fix k :: nat
    assume k: "k < 64"
    have "v res ! k = projr (make_row k)"
      using res k by (rule main_nth(3))
    then have mk: "make_row k = Inr (v res ! k)"
      by (simp add: make_row_Inr)
    from row [OF mk] mk
    show "make_row k = Inr (v res ! k)
              \<and> spin1 (v res ! k) = spin1_of_mask k
              \<and> spin2 (v res ! k) =
                  [majority_rule (take 3 (spin1 (v res ! k))),
                   majority_rule (drop 3 (spin1 (v res ! k)))]
              \<and> energy (spin2 (v res ! k)) = Inr (H2 (v res ! k))
              \<and> H2 (v res ! k) =
                  2 * majority_rule (take 3 (spin1_of_mask k))
                    * majority_rule (drop 3 (spin1_of_mask k))
              \<and> H2 (v res ! k) = 2 * spin2 (v res ! k) ! 0 * spin2 (v res ! k) ! 1
              \<and> (H2 (v res ! k) = 2 \<or> H2 (v res ! k) = - 2)
              \<and> H2 (v res ! k) \<noteq> 0"
      by blast
  qed
  have rows: "\<forall>r\<in>set (v res).
              length (spin2 r) = 2
              \<and> energy (spin2 r) = Inr (H2 r)
              \<and> H2 r = 2 * spin2 r ! 0 * spin2 r ! 1
              \<and> (H2 r = 2 \<or> H2 r = - 2)
              \<and> H2 r \<noteq> 0"
  proof
    fix r assume "r \<in> set (v res)"
    with res obtain m where "make_row m = Inr r"
      by (rule main_row_cases)
    from row [OF this]
    show "length (spin2 r) = 2
              \<and> energy (spin2 r) = Inr (H2 r)
              \<and> H2 r = 2 * spin2 r ! 0 * spin2 r ! 1
              \<and> (H2 r = 2 \<or> H2 r = - 2)
              \<and> H2 r \<noteq> 0"
      by blast
  qed
  have pair: "\<forall>a b. energy [a, b] = Inr (2 * a * b)"
    by (simp add: energy_pair)
  from res len masks rows
  have "main = Inr res \<and> length (v res) = 64
        \<and> (\<forall>k<64.
              make_row k = Inr (v res ! k)
              \<and> spin1 (v res ! k) = spin1_of_mask k
              \<and> spin2 (v res ! k) =
                  [majority_rule (take 3 (spin1 (v res ! k))),
                   majority_rule (drop 3 (spin1 (v res ! k)))]
              \<and> energy (spin2 (v res ! k)) = Inr (H2 (v res ! k))
              \<and> H2 (v res ! k) =
                  2 * majority_rule (take 3 (spin1_of_mask k))
                    * majority_rule (drop 3 (spin1_of_mask k))
              \<and> H2 (v res ! k) = 2 * spin2 (v res ! k) ! 0 * spin2 (v res ! k) ! 1
              \<and> (H2 (v res ! k) = 2 \<or> H2 (v res ! k) = - 2)
              \<and> H2 (v res ! k) \<noteq> 0)
        \<and> (\<forall>r\<in>set (v res).
              length (spin2 r) = 2
              \<and> energy (spin2 r) = Inr (H2 r)
              \<and> H2 r = 2 * spin2 r ! 0 * spin2 r ! 1
              \<and> (H2 r = 2 \<or> H2 r = - 2)
              \<and> H2 r \<noteq> 0)"
    by (intro conjI)
  then have "\<exists>res. main = Inr res \<and> length (v res) = 64
        \<and> (\<forall>k<64.
              make_row k = Inr (v res ! k)
              \<and> spin1 (v res ! k) = spin1_of_mask k
              \<and> spin2 (v res ! k) =
                  [majority_rule (take 3 (spin1 (v res ! k))),
                   majority_rule (drop 3 (spin1 (v res ! k)))]
              \<and> energy (spin2 (v res ! k)) = Inr (H2 (v res ! k))
              \<and> H2 (v res ! k) =
                  2 * majority_rule (take 3 (spin1_of_mask k))
                    * majority_rule (drop 3 (spin1_of_mask k))
              \<and> H2 (v res ! k) = 2 * spin2 (v res ! k) ! 0 * spin2 (v res ! k) ! 1
              \<and> (H2 (v res ! k) = 2 \<or> H2 (v res ! k) = - 2)
              \<and> H2 (v res ! k) \<noteq> 0)
        \<and> (\<forall>r\<in>set (v res).
              length (spin2 r) = 2
              \<and> energy (spin2 r) = Inr (H2 r)
              \<and> H2 r = 2 * spin2 r ! 0 * spin2 r ! 1
              \<and> (H2 r = 2 \<or> H2 r = - 2)
              \<and> H2 r \<noteq> 0)"
    by (rule exI [of _ res])
  with pair show ?thesis
    by (rule conjI)
qed

theorem H2_twice_product_witness:
  "\<exists>res. main = Inr res
     \<and> spin1 (v res ! 42) = [1, - 1, 1, - 1, 1, - 1]
     \<and> spin2 (v res ! 42) = [1, - 1]
     \<and> energy (spin2 (v res ! 42)) = Inr (H2 (v res ! 42))
     \<and> H2 (v res ! 42) = - 2
     \<and> spin1 (v res ! 54) = [1, 1, - 1, 1, 1, - 1]
     \<and> spin2 (v res ! 54) = [1, 1]
     \<and> H2 (v res ! 54) = 2
     \<and> spin1 (v res ! 63) = [1, 1, 1, 1, 1, 1]
     \<and> spin2 (v res ! 63) = [1, 1]
     \<and> H2 (v res ! 63) = 2
     \<and> spin1 (v res ! 0) = [- 1, - 1, - 1, - 1, - 1, - 1]
     \<and> spin2 (v res ! 0) = [- 1, - 1]
     \<and> H2 (v res ! 0) = 2"
proof -
  from H2_twice_product obtain res where res: "main = Inr res"
    and masks: "\<And>k. k < 64 \<Longrightarrow>
        spin1 (v res ! k) = spin1_of_mask k
        \<and> spin2 (v res ! k) =
            [majority_rule (take 3 (spin1 (v res ! k))), majority_rule (drop 3 (spin1 (v res ! k)))]
        \<and> energy (spin2 (v res ! k)) = Inr (H2 (v res ! k))
        \<and> H2 (v res ! k) = 2 * spin2 (v res ! k) ! 0 * spin2 (v res ! k) ! 1"
    by blast
  have m42: "spin1_of_mask 42 = [1, - 1, 1, - 1, 1, - 1]"
    and m54: "spin1_of_mask 54 = [1, 1, - 1, 1, 1, - 1]"
    and m63: "spin1_of_mask 63 = [1, 1, 1, 1, 1, 1]"
    and m0: "spin1_of_mask 0 = [- 1, - 1, - 1, - 1, - 1, - 1]"
    by code_simp+
  have maj: "majority_rule [1, - 1, 1] = 1" "majority_rule [- 1, 1, - 1] = - 1"
    "majority_rule [1, 1, - 1] = 1" "majority_rule [1, 1, 1] = 1"
    "majority_rule [- 1, - 1, - 1] = - 1"
    by (simp_all add: majority_rule_sum_list)
  have r42: "spin1 (v res ! 42) = [1, - 1, 1, - 1, 1, - 1] \<and> spin2 (v res ! 42) = [1, - 1]
      \<and> energy (spin2 (v res ! 42)) = Inr (H2 (v res ! 42)) \<and> H2 (v res ! 42) = - 2"
    using masks [of 42] by (simp add: m42 maj energy_pair)
  have r54: "spin1 (v res ! 54) = [1, 1, - 1, 1, 1, - 1] \<and> spin2 (v res ! 54) = [1, 1]
      \<and> H2 (v res ! 54) = 2"
    using masks [of 54] by (simp add: m54 maj)
  have r63: "spin1 (v res ! 63) = [1, 1, 1, 1, 1, 1] \<and> spin2 (v res ! 63) = [1, 1]
      \<and> H2 (v res ! 63) = 2"
    using masks [of 63] by (simp add: m63 maj)
  have r0: "spin1 (v res ! 0) = [- 1, - 1, - 1, - 1, - 1, - 1] \<and> spin2 (v res ! 0) = [- 1, - 1]
      \<and> H2 (v res ! 0) = 2"
    using masks [of 0] by (simp add: m0 maj)
  from res r42 r54 r63 r0 show ?thesis
    by (intro exI [of _ res]) (simp add: energy_pair)
qed

section \<open>The original energy\<close>

lemma six_spins_energy:
  "list_all (\<lambda>xs. ring_sum xs \<in> set [- 6, - 4, - 2, 0, 2, 4, 6]) (List.n_lists 6 [1, - 1])"
  by code_simp

lemma ring_sum_spin1_of_mask: "ring_sum (spin1_of_mask m) \<in> {- 6, - 4, - 2, 0, 2, 4, 6}"
proof -
  have "set (spin1_of_mask m) \<subseteq> set [1, - 1]"
    using set_spin1_of_mask [of m] by simp
  then have "spin1_of_mask m \<in> set (List.n_lists 6 [1, - 1])"
    unfolding set_n_lists by (simp add: length_spin1_of_mask)
  with six_spins_energy have "ring_sum (spin1_of_mask m) \<in> set [- 6, - 4, - 2, 0, 2, 4, 6]"
    unfolding list_all_iff by (rule bspec)
  then show ?thesis by simp
qed

lemma even_bounded_values:
  fixes h :: int
  assumes "h \<in> {- 6, - 4, - 2, 0, 2, 4, 6}"
  shows "even h" and "\<bar>h\<bar> \<le> 6" and "- 6 \<le> h" and "h \<le> 6"
  using assms by auto

text \<open>
  C6. For every row of the enumeration \<open>H1\<close> is the energy of the six spins, an even
  integer among \<open>-6, -4, -2, 0, 2, 4, 6\<close>, and so is every key of either table.
\<close>

theorem H1_even_bounded:
  "\<exists>res. main = Inr res
     \<and> (\<forall>r\<in>set (v res).
           energy (spin1 r) = Inr (H1 r)
           \<and> H1 r \<in> {- 6, - 4, - 2, 0, 2, 4, 6} \<and> even (H1 r) \<and> \<bar>H1 r\<bar> \<le> 6)
     \<and> (\<forall>k\<in>fst ` set (counts_primed_spins_equal res) \<union> fst ` set (counts_primed_spins_unequal res).
           k \<in> {- 6, - 4, - 2, 0, 2, 4, 6} \<and> even k \<and> - 6 \<le> k \<and> k \<le> 6)"
proof -
  obtain res where res: "main = Inr res"
    using main_unfold by blast
  have rows: "energy (spin1 r) = Inr (H1 r) \<and> H1 r \<in> {- 6, - 4, - 2, 0, 2, 4, 6}"
    if "r \<in> set (v res)" for r
  proof -
    from res that obtain m where "make_row m = Inr r"
      by (rule main_row_cases)
    then have r: "spin1 r = spin1_of_mask m" "H1 r = ring_sum (spin1_of_mask m)"
      by (auto simp: make_row_Inr)
    have "spin1_of_mask m \<noteq> []"
      using length_spin1_of_mask [of m] by auto
    then have "energy (spin1 r) = Inr (H1 r)"
      unfolding r by (rule energy_ring_sum)
    moreover have "H1 r \<in> {- 6, - 4, - 2, 0, 2, 4, 6}"
      unfolding r by (rule ring_sum_spin1_of_mask)
    ultimately show ?thesis by (rule conjI)
  qed
  have part1: "\<forall>r\<in>set (v res). energy (spin1 r) = Inr (H1 r)
      \<and> H1 r \<in> {- 6, - 4, - 2, 0, 2, 4, 6} \<and> even (H1 r) \<and> \<bar>H1 r\<bar> \<le> 6"
  proof
    fix r assume "r \<in> set (v res)"
    from rows [OF this] even_bounded_values(1,2) [of "H1 r"]
    show "energy (spin1 r) = Inr (H1 r)
      \<and> H1 r \<in> {- 6, - 4, - 2, 0, 2, 4, 6} \<and> even (H1 r) \<and> \<bar>H1 r\<bar> \<le> 6"
      by blast
  qed
  have part2: "\<forall>k\<in>fst ` set (counts_primed_spins_equal res) \<union> fst ` set (counts_primed_spins_unequal res).
      k \<in> {- 6, - 4, - 2, 0, 2, 4, 6} \<and> even k \<and> - 6 \<le> k \<and> k \<le> 6"
  proof
    fix k
    assume k: "k \<in> fst ` set (counts_primed_spins_equal res) \<union> fst ` set (counts_primed_spins_unequal res)"
    from count_loop_keys [OF main_rows(2) [OF res]]
    have "fst ` set (counts_primed_spins_equal res) \<subseteq> H1 ` set (v res)"
      and "fst ` set (counts_primed_spins_unequal res) \<subseteq> H1 ` set (v res)"
      by auto
    with k obtain r where "r \<in> set (v res)" and "k = H1 r"
      by blast
    with rows [of r] have "k \<in> {- 6, - 4, - 2, 0, 2, 4, 6}" by simp
    with even_bounded_values [of k]
    show "k \<in> {- 6, - 4, - 2, 0, 2, 4, 6} \<and> even k \<and> - 6 \<le> k \<and> k \<le> 6"
      by blast
  qed
  from res part1 part2 show ?thesis by blast
qed

theorem H1_even_bounded_witness:
  "\<exists>res. main = Inr res
     \<and> spin1 (v res ! 42) = [1, - 1, 1, - 1, 1, - 1]
     \<and> H1 (v res ! 42) = - 6
     \<and> even (H1 (v res ! 42))
     \<and> H1 (v res ! 63) = 6
     \<and> fst ` set (counts_primed_spins_equal res) = {- 2, 2, 6}
     \<and> fst ` set (counts_primed_spins_unequal res) = {- 6, - 2, 2}"
proof -
  from H1_even_bounded obtain res where res: "main = Inr res"
    and all: "\<forall>r\<in>set (v res). energy (spin1 r) = Inr (H1 r)
      \<and> H1 r \<in> {- 6, - 4, - 2, 0, 2, 4, 6} \<and> even (H1 r) \<and> \<bar>H1 r\<bar> \<le> 6"
    by blast
  have r42: "v res ! 42 \<in> set (v res)" "v res ! 42 = projr (make_row 42)"
    using main_nth [OF res, of 42] by simp_all
  have r63: "v res ! 63 \<in> set (v res)" "v res ! 63 = projr (make_row 63)"
    using main_nth [OF res, of 63] by simp_all
  have s42: "spin1 (projr (make_row 42)) = [1, - 1, 1, - 1, 1, - 1]"
    by code_simp
  have s63: "spin1 (projr (make_row 63)) = [1, 1, 1, 1, 1, 1]"
    by code_simp
  have e42: "energy [1, - 1, 1, - 1, 1, - 1] = Inr (- 6)"
    by code_simp
  have e63: "energy [1, 1, 1, 1, 1, 1] = Inr 6"
    by code_simp
  from all r42(1) have a42: "energy (spin1 (v res ! 42)) = Inr (H1 (v res ! 42))" "even (H1 (v res ! 42))"
    by blast+
  from all r63(1) have a63: "energy (spin1 (v res ! 63)) = Inr (H1 (v res ! 63))"
    by blast
  have h42: "H1 (v res ! 42) = - 6"
    using a42(1) e42 unfolding r42(2) s42 by simp
  have h63: "H1 (v res ! 63) = 6"
    using a63 e63 unfolding r63(2) s63 by simp
  have tabs: "case main of Inl e \<Rightarrow> False
      | Inr res \<Rightarrow> counts_primed_spins_equal res = [(- 2, 14), (2, 16), (6, 2)]
          \<and> counts_primed_spins_unequal res = [(- 6, 2), (- 2, 16), (2, 14)]"
    by code_simp
  then have "counts_primed_spins_equal res = [(- 2, 14), (2, 16), (6, 2)]"
    and "counts_primed_spins_unequal res = [(- 6, 2), (- 2, 16), (2, 14)]"
    by (simp_all add: res)
  then have "fst ` set (counts_primed_spins_equal res) = {- 2, 2, 6}"
    and "fst ` set (counts_primed_spins_unequal res) = {- 6, - 2, 2}"
    by simp_all
  with res h42 h63 a42(2) s42 r42(2) show ?thesis
    by (intro exI [of _ res]) simp
qed

section \<open>The classification\<close>

text \<open>
  C5. One step of the counting loop increments one entry of exactly one of the two
  tables, the one of the row's class, and leaves the other table as it is. After the
  loop of \<open>main\<close>, the count under a key in either table is the number of rows of that
  class with that \<open>H1\<close>, the sum of a table's counts is the number of rows of its class,
  and the two sums add up to \<open>64\<close>.
\<close>

theorem classification_partition:
  "(\<forall>r e u e' u'. count_loop [r] (e, u) = (e', u') \<longrightarrow>
       (primed_equal r \<and> e' = map_incr (H1 r) e \<and> u' = u
          \<and> total_count e' = total_count e + 1 \<and> total_count u' = total_count u)
     \<or> (spin2 r ! 0 \<noteq> spin2 r ! 1 \<and> e' = e \<and> u' = map_incr (H1 r) u
          \<and> total_count e' = total_count e \<and> total_count u' = total_count u + 1))
   \<and> (\<exists>res. main = Inr res
        \<and> length (v res) = 64
        \<and> (\<forall>h. lookup (counts_primed_spins_equal res) h
                 = int (length (filter (\<lambda>r. primed_equal r \<and> H1 r = h) (v res))))
        \<and> (\<forall>h. lookup (counts_primed_spins_unequal res) h
                 = int (length (filter (\<lambda>r. \<not> primed_equal r \<and> H1 r = h) (v res))))
        \<and> total_count (counts_primed_spins_equal res) = int (length (filter primed_equal (v res)))
        \<and> total_count (counts_primed_spins_unequal res)
             = int (length (filter (\<lambda>r. \<not> primed_equal r) (v res)))
        \<and> total_count (counts_primed_spins_equal res) + total_count (counts_primed_spins_unequal res) = 64)"
proof -
  obtain res where res: "main = Inr res"
    using main_unfold by blast
  have len: "length (v res) = 64"
    by (simp add: main_rows(1) [OF res])
  have "length (filter primed_equal (v res)) + length (filter (\<lambda>r. \<not> primed_equal r) (v res)) = 64"
    unfolding sum_length_filter_compl len ..
  then have sum: "total_count (counts_primed_spins_equal res) + total_count (counts_primed_spins_unequal res) = 64"
    unfolding main_tables(3,4) [OF res] by linarith
  have step: "\<forall>r e u e' u'. count_loop [r] (e, u) = (e', u') \<longrightarrow>
       (primed_equal r \<and> e' = map_incr (H1 r) e \<and> u' = u
          \<and> total_count e' = total_count e + 1 \<and> total_count u' = total_count u)
     \<or> (spin2 r ! 0 \<noteq> spin2 r ! 1 \<and> e' = e \<and> u' = map_incr (H1 r) u
          \<and> total_count e' = total_count e \<and> total_count u' = total_count u + 1)"
    using count_step by blast
  have tabs: "main = Inr res
        \<and> length (v res) = 64
        \<and> (\<forall>h. lookup (counts_primed_spins_equal res) h
                 = int (length (filter (\<lambda>r. primed_equal r \<and> H1 r = h) (v res))))
        \<and> (\<forall>h. lookup (counts_primed_spins_unequal res) h
                 = int (length (filter (\<lambda>r. \<not> primed_equal r \<and> H1 r = h) (v res))))
        \<and> total_count (counts_primed_spins_equal res) = int (length (filter primed_equal (v res)))
        \<and> total_count (counts_primed_spins_unequal res)
             = int (length (filter (\<lambda>r. \<not> primed_equal r) (v res)))
        \<and> total_count (counts_primed_spins_equal res) + total_count (counts_primed_spins_unequal res) = 64"
    using res len sum main_tables(1,2,3,4) [OF res] by simp
  from tabs have "\<exists>res. main = Inr res
        \<and> length (v res) = 64
        \<and> (\<forall>h. lookup (counts_primed_spins_equal res) h
                 = int (length (filter (\<lambda>r. primed_equal r \<and> H1 r = h) (v res))))
        \<and> (\<forall>h. lookup (counts_primed_spins_unequal res) h
                 = int (length (filter (\<lambda>r. \<not> primed_equal r \<and> H1 r = h) (v res))))
        \<and> total_count (counts_primed_spins_equal res) = int (length (filter primed_equal (v res)))
        \<and> total_count (counts_primed_spins_unequal res)
             = int (length (filter (\<lambda>r. \<not> primed_equal r) (v res)))
        \<and> total_count (counts_primed_spins_equal res) + total_count (counts_primed_spins_unequal res) = 64"
    by (rule exI [of _ res])
  with step show ?thesis
    by (rule conjI)
qed

theorem classification_partition_witness:
  "\<exists>res. main = Inr res
     \<and> lookup (counts_primed_spins_equal res) 6 = 2
     \<and> lookup (counts_primed_spins_unequal res) 6 = 0
     \<and> lookup (counts_primed_spins_equal res) (- 2) = 14
     \<and> lookup (counts_primed_spins_unequal res) (- 2) = 16
     \<and> total_count (counts_primed_spins_equal res) = 32
     \<and> total_count (counts_primed_spins_unequal res) = 32
     \<and> count_loop [v res ! 63] ([], []) = ([(6, 1)], [])
     \<and> count_loop [v res ! 42] ([], []) = ([], [(- 6, 1)])"
proof -
  from classification_partition obtain res where res: "main = Inr res"
    and eq: "\<And>h. lookup (counts_primed_spins_equal res) h
                 = int (length (filter (\<lambda>r. primed_equal r \<and> H1 r = h) (v res)))"
    and uneq: "\<And>h. lookup (counts_primed_spins_unequal res) h
                 = int (length (filter (\<lambda>r. \<not> primed_equal r \<and> H1 r = h) (v res)))"
    and teq: "total_count (counts_primed_spins_equal res) = int (length (filter primed_equal (v res)))"
    and tuneq: "total_count (counts_primed_spins_unequal res)
             = int (length (filter (\<lambda>r. \<not> primed_equal r) (v res)))"
    by blast
  note rows = main_rows(1) [OF res]
  have "length (filter (\<lambda>r. primed_equal r \<and> H1 r = 6) (map (\<lambda>m. projr (make_row m)) [0..<64])) = 2"
    and "length (filter (\<lambda>r. \<not> primed_equal r \<and> H1 r = 6) (map (\<lambda>m. projr (make_row m)) [0..<64])) = 0"
    and "length (filter (\<lambda>r. primed_equal r \<and> H1 r = - 2) (map (\<lambda>m. projr (make_row m)) [0..<64])) = 14"
    and "length (filter (\<lambda>r. \<not> primed_equal r \<and> H1 r = - 2) (map (\<lambda>m. projr (make_row m)) [0..<64])) = 16"
    and "length (filter primed_equal (map (\<lambda>m. projr (make_row m)) [0..<64])) = 32"
    and "length (filter (\<lambda>r. \<not> primed_equal r) (map (\<lambda>m. projr (make_row m)) [0..<64])) = 32"
    by code_simp+
  then have counts: "lookup (counts_primed_spins_equal res) 6 = 2"
    "lookup (counts_primed_spins_unequal res) 6 = 0"
    "lookup (counts_primed_spins_equal res) (- 2) = 14"
    "lookup (counts_primed_spins_unequal res) (- 2) = 16"
    "total_count (counts_primed_spins_equal res) = 32"
    "total_count (counts_primed_spins_unequal res) = 32"
    unfolding eq uneq teq tuneq rows by simp_all
  have "count_loop [projr (make_row 63)] ([], []) = ([(6, 1)], [])"
    and "count_loop [projr (make_row 42)] ([], []) = ([], [(- 6, 1)])"
    by code_simp+
  then have steps: "count_loop [v res ! 63] ([], []) = ([(6, 1)], [])"
    "count_loop [v res ! 42] ([], []) = ([], [(- 6, 1)])"
    using main_nth(3) [OF res, of 63] main_nth(3) [OF res, of 42] by simp_all
  from res counts steps show ?thesis
    by (intro exI [of _ res]) simp
qed

section \<open>The equation file\<close>

lemma join_with_Cons: "join_with sep (t # ts) = t @ concat (map ((@) sep) ts)"
  by (induction ts arbitrary: t) simp_all

lemma write_terms_False:
  "write_terms False m = concat (map (\<lambda>p. ''+ '' @ term_text p) m)"
  by (induction m) auto

lemma write_terms_join: "write_terms True m = join_with ''+ '' (map term_text m)"
proof (cases m)
  case Nil
  then show ?thesis by simp
next
  case (Cons p m')
  obtain k c where p: "p = (k, c)" by (cases p)
  have "concat (map ((@) ''+ '') (map term_text m')) = concat (map (\<lambda>p. ''+ '' @ term_text p) m')"
    by (simp add: comp_def)
  then show ?thesis
    unfolding Cons join_with_Cons list.map p
    by (simp add: write_terms_False)
qed

lemma keys_ascending:
  fixes m :: int_map
  assumes "sorted_wrt (<) (map fst m)" and "fst ` set m = A"
  shows "map fst m = sorted_list_of_set A"
proof (rule sorted_distinct_set_unique)
  from assms(1) show "sorted (map fst m)" and "distinct (map fst m)"
    by (simp_all add: strict_sorted_iff)
  have fin: "finite A"
    using assms(2) by auto
  then show "sorted (sorted_list_of_set A)" and "distinct (sorted_list_of_set A)"
    by simp_all
  from fin assms(2) show "set (map fst m) = set (sorted_list_of_set A)"
    by simp
qed

lemma renorm_out_text:
  "case main of Inl e \<Rightarrow> False
   | Inr res \<Rightarrow> renorm_out res =
       ''Exp[A(k)+2k'' @ [CHR 0x27] @ ''] = 14 Exp[-2 k]+ 16 Exp[2 k]+ 2 Exp[6 k]'' @ [CHR 0x0A]
       @ ''Exp[A(k)-2k'' @ [CHR 0x27] @ ''] = 2 Exp[-6 k]+ 16 Exp[-2 k]+ 14 Exp[2 k]'' @ [CHR 0x0A]"
  by code_simp

text \<open>
  C8. Each output loop writes the terms \<open><count> Exp[<H1> k]\<close> of its table joined by
  \<open>+ \<close>. The file written by \<open>main\<close> is the label of the class \<open>s1' = s2'\<close>, the terms of
  its table and a newline, then the same for the class \<open>s1' \<noteq> s2'\<close>; the keys of either
  table are the distinct \<open>H1\<close> values of its class in ascending order.
\<close>

theorem summary_equations:
  "(\<forall>m. write_terms True m = join_with ''+ '' (map term_text m))
   \<and> (\<forall>k c. term_text (k, c) = show_int c @ '' Exp['' @ show_int k @ '' k]'')
   \<and> (\<exists>res. main = Inr res
        \<and> renorm_out res =
            ''Exp[A(k)+2k'' @ [CHR 0x27] @ ''] = ''
              @ join_with ''+ '' (map term_text (counts_primed_spins_equal res)) @ [CHR 0x0A]
            @ ''Exp[A(k)-2k'' @ [CHR 0x27] @ ''] = ''
              @ join_with ''+ '' (map term_text (counts_primed_spins_unequal res)) @ [CHR 0x0A]
        \<and> map fst (counts_primed_spins_equal res)
            = sorted_list_of_set (H1 ` {r \<in> set (v res). primed_equal r})
        \<and> map fst (counts_primed_spins_unequal res)
            = sorted_list_of_set (H1 ` {r \<in> set (v res). \<not> primed_equal r})
        \<and> sorted_wrt (<) (map fst (counts_primed_spins_equal res))
        \<and> sorted_wrt (<) (map fst (counts_primed_spins_unequal res))
        \<and> renorm_out res =
            ''Exp[A(k)+2k'' @ [CHR 0x27] @ ''] = 14 Exp[-2 k]+ 16 Exp[2 k]+ 2 Exp[6 k]'' @ [CHR 0x0A]
            @ ''Exp[A(k)-2k'' @ [CHR 0x27] @ ''] = 2 Exp[-6 k]+ 16 Exp[-2 k]+ 14 Exp[2 k]'' @ [CHR 0x0A])"
proof -
  obtain res where res: "main = Inr res"
    using main_unfold by blast
  have out: "renorm_out res =
            ''Exp[A(k)+2k'' @ [CHR 0x27] @ ''] = ''
              @ join_with ''+ '' (map term_text (counts_primed_spins_equal res)) @ [CHR 0x0A]
            @ ''Exp[A(k)-2k'' @ [CHR 0x27] @ ''] = ''
              @ join_with ''+ '' (map term_text (counts_primed_spins_unequal res)) @ [CHR 0x0A]"
    unfolding main_rows(3) [OF res] write_equations_def write_terms_join ..
  have keq: "map fst (counts_primed_spins_equal res)
            = sorted_list_of_set (H1 ` {r \<in> set (v res). primed_equal r})"
    using main_tables(5,7) [OF res] by (rule keys_ascending)
  have kuneq: "map fst (counts_primed_spins_unequal res)
            = sorted_list_of_set (H1 ` {r \<in> set (v res). \<not> primed_equal r})"
    using main_tables(6,8) [OF res] by (rule keys_ascending)
  have lit: "renorm_out res =
            ''Exp[A(k)+2k'' @ [CHR 0x27] @ ''] = 14 Exp[-2 k]+ 16 Exp[2 k]+ 2 Exp[6 k]'' @ [CHR 0x0A]
            @ ''Exp[A(k)-2k'' @ [CHR 0x27] @ ''] = 2 Exp[-6 k]+ 16 Exp[-2 k]+ 14 Exp[2 k]'' @ [CHR 0x0A]"
    using renorm_out_text unfolding res sum.case .
  have "main = Inr res
        \<and> renorm_out res =
            ''Exp[A(k)+2k'' @ [CHR 0x27] @ ''] = ''
              @ join_with ''+ '' (map term_text (counts_primed_spins_equal res)) @ [CHR 0x0A]
            @ ''Exp[A(k)-2k'' @ [CHR 0x27] @ ''] = ''
              @ join_with ''+ '' (map term_text (counts_primed_spins_unequal res)) @ [CHR 0x0A]
        \<and> map fst (counts_primed_spins_equal res)
            = sorted_list_of_set (H1 ` {r \<in> set (v res). primed_equal r})
        \<and> map fst (counts_primed_spins_unequal res)
            = sorted_list_of_set (H1 ` {r \<in> set (v res). \<not> primed_equal r})
        \<and> sorted_wrt (<) (map fst (counts_primed_spins_equal res))
        \<and> sorted_wrt (<) (map fst (counts_primed_spins_unequal res))
        \<and> renorm_out res =
            ''Exp[A(k)+2k'' @ [CHR 0x27] @ ''] = 14 Exp[-2 k]+ 16 Exp[2 k]+ 2 Exp[6 k]'' @ [CHR 0x0A]
            @ ''Exp[A(k)-2k'' @ [CHR 0x27] @ ''] = 2 Exp[-6 k]+ 16 Exp[-2 k]+ 14 Exp[2 k]'' @ [CHR 0x0A]"
    using res out keq kuneq main_tables(5,6) [OF res] lit by (intro conjI)
  then have ex: "\<exists>res. main = Inr res
        \<and> renorm_out res =
            ''Exp[A(k)+2k'' @ [CHR 0x27] @ ''] = ''
              @ join_with ''+ '' (map term_text (counts_primed_spins_equal res)) @ [CHR 0x0A]
            @ ''Exp[A(k)-2k'' @ [CHR 0x27] @ ''] = ''
              @ join_with ''+ '' (map term_text (counts_primed_spins_unequal res)) @ [CHR 0x0A]
        \<and> map fst (counts_primed_spins_equal res)
            = sorted_list_of_set (H1 ` {r \<in> set (v res). primed_equal r})
        \<and> map fst (counts_primed_spins_unequal res)
            = sorted_list_of_set (H1 ` {r \<in> set (v res). \<not> primed_equal r})
        \<and> sorted_wrt (<) (map fst (counts_primed_spins_equal res))
        \<and> sorted_wrt (<) (map fst (counts_primed_spins_unequal res))
        \<and> renorm_out res =
            ''Exp[A(k)+2k'' @ [CHR 0x27] @ ''] = 14 Exp[-2 k]+ 16 Exp[2 k]+ 2 Exp[6 k]'' @ [CHR 0x0A]
            @ ''Exp[A(k)-2k'' @ [CHR 0x27] @ ''] = 2 Exp[-6 k]+ 16 Exp[-2 k]+ 14 Exp[2 k]'' @ [CHR 0x0A]"
    by (rule exI [of _ res])
  have a: "\<forall>m. write_terms True m = join_with ''+ '' (map term_text m)"
    by (simp add: write_terms_join)
  have b: "\<forall>k c. term_text (k, c) = show_int c @ '' Exp['' @ show_int k @ '' k]''"
    by simp
  from a b ex show ?thesis
    by (intro conjI)
qed

theorem summary_equations_witness:
  "write_terms True [(- 6, 2), (- 2, 16), (2, 14)] = ''2 Exp[-6 k]+ 16 Exp[-2 k]+ 14 Exp[2 k]''
   \<and> term_text (- 6, 2) = ''2 Exp[-6 k]''
   \<and> (\<exists>res. main = Inr res
        \<and> map fst (counts_primed_spins_equal res) = [- 2, 2, 6]
        \<and> map fst (counts_primed_spins_unequal res) = [- 6, - 2, 2])"
proof -
  from summary_equations
  have w: "write_terms True [(- 6, 2), (- 2, 16), (2, 14)]
      = join_with ''+ '' (map term_text [(- 6, 2), (- 2, 16), (2, 14)])"
    and t: "term_text (- 6, 2) = show_int 2 @ '' Exp['' @ show_int (- 6) @ '' k]''"
    by blast+
  from summary_equations obtain res where res: "main = Inr res"
    and keq: "map fst (counts_primed_spins_equal res)
            = sorted_list_of_set (H1 ` {r \<in> set (v res). primed_equal r})"
    and kuneq: "map fst (counts_primed_spins_unequal res)
            = sorted_list_of_set (H1 ` {r \<in> set (v res). \<not> primed_equal r})"
    by blast
  have j: "join_with ''+ '' (map term_text [(- 6, 2), (- 2, 16), (2, 14)])
      = ''2 Exp[-6 k]+ 16 Exp[-2 k]+ 14 Exp[2 k]''"
    by code_simp
  have s: "show_int 2 @ '' Exp['' @ show_int (- 6) @ '' k]'' = ''2 Exp[-6 k]''"
    by code_simp
  have "sorted_list_of_set (H1 ` {r \<in> set (map (\<lambda>m. projr (make_row m)) [0..<64]). primed_equal r})
      = [- 2, 2, 6]"
    and "sorted_list_of_set (H1 ` {r \<in> set (map (\<lambda>m. projr (make_row m)) [0..<64]). \<not> primed_equal r})
      = [- 6, - 2, 2]"
    by code_simp+
  then have "map fst (counts_primed_spins_equal res) = [- 2, 2, 6]"
    and "map fst (counts_primed_spins_unequal res) = [- 6, - 2, 2]"
    unfolding keq kuneq main_rows(1) [OF res] by simp_all
  with res have ex: "\<exists>res. main = Inr res
        \<and> map fst (counts_primed_spins_equal res) = [- 2, 2, 6]
        \<and> map fst (counts_primed_spins_unequal res) = [- 6, - 2, 2]"
    by (intro exI [of _ res]) simp
  from w j have c1: "write_terms True [(- 6, 2), (- 2, 16), (2, 14)]
      = ''2 Exp[-6 k]+ 16 Exp[-2 k]+ 14 Exp[2 k]''"
    by (rule trans)
  from t s have c2: "term_text (- 6, 2) = ''2 Exp[-6 k]''"
    by (rule trans)
  from c1 c2 ex show ?thesis
    by (intro conjI)
qed

end
